theory Spec2Isabelle
  imports Main "HOL-Library.AList" "HOL-Library.Sublist"
begin

section \<open>Strings\<close>

text \<open>
  A Python \<open>str\<close> is a sequence of Unicode code points and \<open>len\<close> counts code points,
  so a string is a list of code points here. \<open>py\<close> reads an Isabelle string literal as
  such a list (used for the literals of the source and for examples).
\<close>

type_synonym pystr = "nat list"

definition py :: "string \<Rightarrow> pystr" where
  "py s = map of_char s"

text \<open>
  \<open>str.strip()\<close> without argument removes leading and trailing whitespace; the
  whitespace code points are those of \<open>str.isspace\<close>: U+0009..U+000D, U+001C..U+0020,
  U+0085, U+00A0, U+1680, U+2000..U+200A, U+2028, U+2029, U+202F, U+205F, U+3000.
\<close>

definition isspace :: "nat \<Rightarrow> bool" where
  "isspace c \<longleftrightarrow>
     (9 \<le> c \<and> c \<le> 13) \<or> (28 \<le> c \<and> c \<le> 32) \<or> c = 133 \<or> c = 160 \<or> c = 5760 \<or>
     (8192 \<le> c \<and> c \<le> 8202) \<or> c = 8232 \<or> c = 8233 \<or> c = 8239 \<or> c = 8287 \<or> c = 12288"

definition strip :: "pystr \<Rightarrow> pystr" where
  "strip s = rev (dropWhile isspace (rev (dropWhile isspace s)))"

text \<open>The paragraph separator \<open>"\n\n"\<close>: two line feeds (code point 10).\<close>

definition para_sep :: pystr where
  "para_sep = [10, 10]"

text \<open>
  \<open>text.split("\n\n")\<close>: the string is cut at every occurrence of the separator, found
  from left to right without overlap; the result is never empty.
\<close>

fun split_paragraphs :: "pystr \<Rightarrow> pystr list" where
  "split_paragraphs [] = [[]]"
| "split_paragraphs [c] = [[c]]"
| "split_paragraphs (c # d # cs) =
     (if c = 10 \<and> d = 10 then [] # split_paragraphs cs
      else (case split_paragraphs (d # cs) of
              [] \<Rightarrow> [[c]]
            | p # ps \<Rightarrow> (c # p) # ps))"

text \<open>\<open>sep.join(parts)\<close>.\<close>

fun join :: "pystr \<Rightarrow> pystr list \<Rightarrow> pystr" where
  "join sep [] = []"
| "join sep [p] = p"
| "join sep (p # q # ps) = p @ sep @ join sep (q # ps)"

section \<open>The message splitter\<close>

text \<open>
  \<open>_split_long_message\<close>. The limit \<open>TELEGRAM_MAX_MESSAGE_LENGTH\<close> comes from the
  configuration and is the parameter \<open>C\<close>. \<open>split_loop\<close> is the \<open>for paragraph in ...\<close>
  loop over the local variables \<open>chunks\<close> and \<open>current\<close>.
\<close>

fun split_loop :: "int \<Rightarrow> pystr list \<Rightarrow> pystr list \<Rightarrow> pystr \<Rightarrow> pystr list \<times> pystr" where
  "split_loop C [] chunks current = (chunks, current)"
| "split_loop C (paragraph # rest) chunks current =
     (if int (length current) + int (length paragraph) + 2 > C
      then split_loop C rest (if current \<noteq> [] then chunks @ [strip current] else chunks) paragraph
      else split_loop C rest chunks ((if current \<noteq> [] then current @ para_sep else current) @ paragraph))"

definition split_long_message :: "int \<Rightarrow> pystr \<Rightarrow> pystr list" where
  "split_long_message C text =
     (if int (length text) \<le> C then [text]
      else (case split_loop C (split_paragraphs text) [] [] of
              (chunks, current) \<Rightarrow> if current \<noteq> [] then chunks @ [strip current] else chunks))"

text \<open>
  A paragraph is \<open>clean\<close> when it is not empty and neither starts nor ends with
  whitespace: \<open>strip\<close> leaves such a paragraph as it is.
\<close>

definition clean :: "pystr \<Rightarrow> bool" where
  "clean p \<longleftrightarrow> p \<noteq> [] \<and> \<not> isspace (hd p) \<and> \<not> isspace (last p)"

section \<open>The actor: data\<close>

text \<open>
  Exceptions as values. \<open>except Exception\<close> catches \<open>TimeoutError\<close> and every other
  \<open>Exception\<close>, but not \<open>asyncio.CancelledError\<close>, which derives from \<open>BaseException\<close>
  (Python 3.8 and later).
\<close>

datatype exc = TimeoutError | CancelledError | Exception

text \<open>
  An update of the Bot API. \<open>message\<close> is \<open>None\<close> when the key is absent or empty;
  \<open>chat\<close> is \<open>message["chat"]["id"]\<close> and \<open>sender\<close> is the id and the optional
  username of \<open>message["from"]\<close>, each \<open>None\<close> when the key is absent (reading it then
  raises \<open>KeyError\<close>); \<open>msg_text\<close> is \<open>message.get("text", "")\<close>.
\<close>

record tg_message =
  chat :: "int option"
  sender :: "(int \<times> pystr option) option"
  msg_text :: pystr

record tg_update =
  update_id :: int
  message :: "tg_message option"

text \<open>
  An \<open>asyncio.Task\<close> running \<open>_typing_loop\<close>: its identity and whether \<open>task.done()\<close>
  holds. A task is identified by the position in the trace at which it was created.
\<close>

datatype task = Task (tid: nat) (task_done: bool)

text \<open>
  The awaited operations that leave the actor: the two Bot API methods called through
  \<open>_api_call\<close> (\<open>getUpdates\<close> with its offset, \<open>sendMessage\<close> with chat id, text and
  whether \<open>parse_mode\<close> is \<open>Markdown\<close>), the message put on the actor system for the
  actor itself (user id, chat id, username, text), and \<open>asyncio.sleep\<close>.
\<close>

datatype request =
    GetUpdates int
  | SendMessage int pystr bool
  | SendToSelf int int "pystr option" pystr
  | Sleep nat

text \<open>
  The JSON body of an answer: its \<open>ok\<close> flag and its \<open>result\<close> list (empty when the
  key is absent, as \<open>result.get("result", [])\<close> reads it).
\<close>

datatype reply = Reply bool "tg_update list"

datatype logmsg =
    PollingStarted | PollingStopped | PollingError | GetUpdatesFailed
  | SendFailed int | PlainSendFailed
  | LimitReached | ForcefullyRemoved nat | Cleaned nat | Queued int

text \<open>
  What the actor does, in order: awaited operations, assignments to \<open>_update_offset\<close>,
  calls of \<open>_process_update\<close> (with the update id), \<open>task.cancel()\<close> and
  \<open>asyncio.create_task\<close> (with chat id and task), and log records.
\<close>

datatype event =
    Await request
  | SetOffset int
  | Dispatch int
  | Cancel int task
  | Create int task
  | Log logmsg

text \<open>
  The world outside the actor: \<open>answer env k r\<close> is how the awaited operation \<open>r\<close>,
  started when \<open>k\<close> events have happened, ends (it raises or it returns a reply);
  \<open>is_running env k\<close> is the value of \<open>self.is_running\<close> read at that point;
  \<open>actor_system env\<close> tells whether \<open>get_actor_system()\<close> returns a system.
\<close>

record env =
  answer :: "nat \<Rightarrow> request \<Rightarrow> exc + reply"
  is_running :: "nat \<Rightarrow> bool"
  actor_system :: bool

text \<open>
  The constants of \<open>config.settings\<close> and \<open>config.messages\<close> the code reads, as
  parameters: \<open>TELEGRAM_MAX_MESSAGE_LENGTH\<close>, \<open>TELEGRAM_TYPING_CLEANUP_THRESHOLD\<close>,
  \<open>TELEGRAM_MAX_TYPING_TASKS\<close>, the formatted welcome message and the message for an
  unknown command.
\<close>

record config =
  max_message_length :: int
  typing_cleanup_threshold :: int
  max_typing_tasks :: int
  welcome_text :: pystr
  unknown_command_text :: pystr

text \<open>
  The fields of \<open>TelegramInterfaceActor\<close> that the modelled methods use.
  \<open>typing_tasks\<close> is the dictionary \<open>_typing_tasks\<close> in insertion order; \<open>trace\<close> records
  the events so far.
\<close>

record actor =
  update_offset :: int
  typing_tasks :: "(int \<times> task) list"
  typing_cleanup_counter :: int
  trace :: "event list"

definition init :: actor where
  "init = \<lparr>update_offset = 0, typing_tasks = [], typing_cleanup_counter = 0, trace = []\<rparr>"

section \<open>The actor: operations\<close>

definition emit :: "event \<Rightarrow> actor \<Rightarrow> actor" where
  "emit e s = s\<lparr>trace := trace s @ [e]\<rparr>"

definition await :: "env \<Rightarrow> request \<Rightarrow> actor \<Rightarrow> (exc + reply) \<times> actor" where
  "await env r s = (answer env (length (trace s)) r, emit (Await r) s)"

text \<open>\<open>_api_call\<close>: a reply whose \<open>ok\<close> is false raises \<open>Exception\<close>.\<close>

definition api_call :: "env \<Rightarrow> request \<Rightarrow> actor \<Rightarrow> (exc + tg_update list) \<times> actor" where
  "api_call env r s =
     (case await env r s of
        (Inl e, s') \<Rightarrow> (Inl e, s')
      | (Inr (Reply ok res), s') \<Rightarrow> (if ok then Inr res else Inl Exception, s'))"

text \<open>\<open>_get_updates\<close>.\<close>

definition get_updates :: "env \<Rightarrow> actor \<Rightarrow> (exc + tg_update list) \<times> actor" where
  "get_updates env s =
     (case api_call env (GetUpdates (update_offset s)) s of
        (Inr updates, s1) \<Rightarrow>
          (Inr updates,
           if updates \<noteq> []
           then emit (SetOffset (update_id (last updates) + 1))
                  (s1\<lparr>update_offset := update_id (last updates) + 1\<rparr>)
           else s1)
      | (Inl TimeoutError, s1) \<Rightarrow> (Inr [], s1)
      | (Inl CancelledError, s1) \<Rightarrow> (Inl CancelledError, s1)
      | (Inl Exception, s1) \<Rightarrow> (Inr [], emit (Log GetUpdatesFailed) s1))"

text \<open>\<open>_send_message\<close>: \<open>send_chunk\<close> is the body of its loop over the chunks.\<close>

definition send_chunk :: "env \<Rightarrow> int \<Rightarrow> pystr \<Rightarrow> actor \<Rightarrow> (exc + unit) \<times> actor" where
  "send_chunk env chat_id chunk s =
     (case api_call env (SendMessage chat_id chunk True) s of
        (Inr _, s1) \<Rightarrow> (Inr (), s1)
      | (Inl CancelledError, s1) \<Rightarrow> (Inl CancelledError, s1)
      | (Inl _, s1) \<Rightarrow>
          (case api_call env (SendMessage chat_id chunk False) (emit (Log (SendFailed chat_id)) s1) of
             (Inr _, s2) \<Rightarrow> (Inr (), s2)
           | (Inl CancelledError, s2) \<Rightarrow> (Inl CancelledError, s2)
           | (Inl _, s2) \<Rightarrow> (Inr (), emit (Log PlainSendFailed) s2)))"

fun send_chunks :: "env \<Rightarrow> int \<Rightarrow> pystr list \<Rightarrow> actor \<Rightarrow> (exc + unit) \<times> actor" where
  "send_chunks env chat_id [] s = (Inr (), s)"
| "send_chunks env chat_id (chunk # rest) s =
     (case send_chunk env chat_id chunk s of
        (Inl e, s') \<Rightarrow> (Inl e, s')
      | (Inr _, s') \<Rightarrow> send_chunks env chat_id rest s')"

definition send_message :: "config \<Rightarrow> env \<Rightarrow> int \<Rightarrow> pystr \<Rightarrow> actor \<Rightarrow> (exc + unit) \<times> actor" where
  "send_message cfg env chat_id text s =
     send_chunks env chat_id (split_long_message (max_message_length cfg) text) s"

text \<open>\<open>_handle_command\<close>.\<close>

definition handle_command :: "config \<Rightarrow> env \<Rightarrow> int \<Rightarrow> pystr \<Rightarrow> actor \<Rightarrow> (exc + unit) \<times> actor" where
  "handle_command cfg env chat_id command s =
     (if command = py ''/start'' then send_message cfg env chat_id (welcome_text cfg) s
      else send_message cfg env chat_id (unknown_command_text cfg) s)"

text \<open>\<open>_stop_typing\<close>.\<close>

definition stop_typing :: "int \<Rightarrow> actor \<Rightarrow> actor" where
  "stop_typing chat_id s =
     (case map_of (typing_tasks s) chat_id of
        None \<Rightarrow> s
      | Some t \<Rightarrow> emit (Cancel chat_id t) (s\<lparr>typing_tasks := AList.delete chat_id (typing_tasks s)\<rparr>))"

text \<open>\<open>_cleanup_typing_tasks\<close>.\<close>

definition cleanup_typing_tasks :: "actor \<Rightarrow> actor" where
  "cleanup_typing_tasks s =
     (let completed_chats = map fst (filter (\<lambda>(chat_id, t). task_done t) (typing_tasks s));
          s1 = s\<lparr>typing_tasks := fold AList.delete completed_chats (typing_tasks s)\<rparr>
      in if completed_chats \<noteq> [] then emit (Log (Cleaned (length completed_chats))) s1 else s1)"

text \<open>
  \<open>_start_typing\<close>. \<open>evict\<close> is the loop \<open>for _ in range(to_remove)\<close>; on an empty
  dictionary \<open>next(iter(...))\<close> raises. \<open>enforce_limit\<close> is the block under the comment
  on the limit of active typing tasks, \<open>create_task\<close> the last statement.
\<close>

fun evict :: "nat \<Rightarrow> actor \<Rightarrow> (exc + unit) \<times> actor" where
  "evict 0 s = (Inr (), s)"
| "evict (Suc n) s =
     (case typing_tasks s of
        [] \<Rightarrow> (Inl Exception, s)
      | (oldest_chat_id, t) # _ \<Rightarrow>
          evict n (emit (Cancel oldest_chat_id t)
                     (s\<lparr>typing_tasks := AList.delete oldest_chat_id (typing_tasks s)\<rparr>)))"

definition enforce_limit :: "config \<Rightarrow> actor \<Rightarrow> (exc + unit) \<times> actor" where
  "enforce_limit cfg s =
     (if int (length (typing_tasks s)) \<ge> max_typing_tasks cfg
      then (let s1 = cleanup_typing_tasks (emit (Log LimitReached) s)
            in if int (length (typing_tasks s1)) \<ge> max_typing_tasks cfg
               then (let to_remove = max 1 (length (typing_tasks s1) div 10)
                     in case evict to_remove s1 of
                          (Inl e, s2) \<Rightarrow> (Inl e, s2)
                        | (Inr _, s2) \<Rightarrow> (Inr (), emit (Log (ForcefullyRemoved to_remove)) s2))
               else (Inr (), s1))
      else (Inr (), s))"

definition create_task :: "int \<Rightarrow> actor \<Rightarrow> actor" where
  "create_task chat_id s =
     (let t = Task (length (trace s)) False
      in emit (Create chat_id t) (s\<lparr>typing_tasks := AList.update chat_id t (typing_tasks s)\<rparr>))"

definition start_typing :: "config \<Rightarrow> int \<Rightarrow> actor \<Rightarrow> (exc + unit) \<times> actor" where
  "start_typing cfg chat_id s =
     (let s1 = stop_typing chat_id s;
          s2 = s1\<lparr>typing_cleanup_counter := typing_cleanup_counter s1 + 1\<rparr>;
          s3 = (if typing_cleanup_counter s2 \<ge> typing_cleanup_threshold cfg
                then (cleanup_typing_tasks s2)\<lparr>typing_cleanup_counter := 0\<rparr>
                else s2)
      in case enforce_limit cfg s3 of
           (Inl e, s4) \<Rightarrow> (Inl e, s4)
         | (Inr _, s4) \<Rightarrow> (Inr (), create_task chat_id s4))"

text \<open>\<open>_process_update\<close>; code point 47 is \<open>/\<close>.\<close>

definition process_update :: "config \<Rightarrow> env \<Rightarrow> tg_update \<Rightarrow> actor \<Rightarrow> (exc + unit) \<times> actor" where
  "process_update cfg env u s =
     (case message u of
        None \<Rightarrow> (Inr (), s)
      | Some m \<Rightarrow>
          (case chat m of
             None \<Rightarrow> (Inl Exception, s)
           | Some chat_id \<Rightarrow>
               (case sender m of
                  None \<Rightarrow> (Inl Exception, s)
                | Some (user_id, username) \<Rightarrow>
                    if msg_text m = [] then (Inr (), s)
                    else if hd (msg_text m) = 47 then handle_command cfg env chat_id (msg_text m) s
                    else (case start_typing cfg chat_id s of
                            (Inl e, s1) \<Rightarrow> (Inl e, s1)
                          | (Inr _, s1) \<Rightarrow>
                              if actor_system env
                              then (case await env (SendToSelf user_id chat_id username (msg_text m)) s1 of
                                      (Inl e, s2) \<Rightarrow> (Inl e, s2)
                                    | (Inr _, s2) \<Rightarrow> (Inr (), emit (Log (Queued user_id)) s2))
                              else (Inr (), emit (Log (Queued user_id)) s1)))))"

text \<open>
  \<open>_polling_loop\<close>. \<open>process_updates\<close> is the loop \<open>for update in updates\<close>,
  \<open>polling_body\<close> the statements under \<open>try\<close>, and \<open>polling_iteration\<close> the body of
  the \<open>while\<close> loop, the \<open>try\<close> statement with its two handlers: it tells
  whether the loop goes on, is left by \<open>break\<close>, or is left by an exception raised in
  the handler (by the sleep). \<open>polling_loop\<close> runs at most \<open>fuel\<close> iterations; \<open>None\<close>
  says the loop is still running after them.
\<close>

fun process_updates :: "config \<Rightarrow> env \<Rightarrow> tg_update list \<Rightarrow> actor \<Rightarrow> (exc + unit) \<times> actor" where
  "process_updates cfg env [] s = (Inr (), s)"
| "process_updates cfg env (u # rest) s =
     (case process_update cfg env u (emit (Dispatch (update_id u)) s) of
        (Inl e, s') \<Rightarrow> (Inl e, s')
      | (Inr _, s') \<Rightarrow> process_updates cfg env rest s')"

datatype control = Continue | Break | Raise exc

definition polling_body :: "config \<Rightarrow> env \<Rightarrow> actor \<Rightarrow> (exc + unit) \<times> actor" where
  "polling_body cfg env s =
     (case get_updates env s of
        (Inl e, s1) \<Rightarrow> (Inl e, s1)
      | (Inr updates, s1) \<Rightarrow> process_updates cfg env updates s1)"

definition polling_iteration :: "config \<Rightarrow> env \<Rightarrow> actor \<Rightarrow> control \<times> actor" where
  "polling_iteration cfg env s =
     (case polling_body cfg env s of
        (Inr _, s2) \<Rightarrow> (Continue, s2)
      | (Inl CancelledError, s2) \<Rightarrow> (Break, s2)
      | (Inl _, s2) \<Rightarrow>
          (case await env (Sleep 5) (emit (Log PollingError) s2) of
             (Inl e, s3) \<Rightarrow> (Raise e, s3)
           | (Inr _, s3) \<Rightarrow> (Continue, s3)))"

fun polling_loop :: "config \<Rightarrow> env \<Rightarrow> nat \<Rightarrow> actor \<Rightarrow> (exc + unit) option \<times> actor" where
  "polling_loop cfg env 0 s = (None, s)"
| "polling_loop cfg env (Suc fuel) s =
     (if \<not> is_running env (length (trace s)) then (Some (Inr ()), emit (Log PollingStopped) s)
      else (case polling_iteration cfg env s of
              (Continue, s') \<Rightarrow> polling_loop cfg env fuel s'
            | (Break, s') \<Rightarrow> (Some (Inr ()), emit (Log PollingStopped) s')
            | (Raise e, s') \<Rightarrow> (Some (Inl e), s')))"

definition run_polling :: "config \<Rightarrow> env \<Rightarrow> nat \<Rightarrow> actor \<Rightarrow> (exc + unit) option \<times> actor" where
  "run_polling cfg env fuel s = polling_loop cfg env fuel (emit (Log PollingStarted) s)"

section \<open>Reading traces\<close>

text \<open>The events that happened between two states, and projections of a trace.\<close>

definition new_events :: "actor \<Rightarrow> actor \<Rightarrow> event list" where
  "new_events s s' = drop (length (trace s)) (trace s')"

definition dispatched :: "event list \<Rightarrow> int list" where
  "dispatched evs = concat (map (\<lambda>e. case e of Dispatch i \<Rightarrow> [i] | _ \<Rightarrow> []) evs)"

definition cancels :: "event list \<Rightarrow> (int \<times> task) list" where
  "cancels evs = concat (map (\<lambda>e. case e of Cancel c t \<Rightarrow> [(c, t)] | _ \<Rightarrow> []) evs)"


text \<open>
  The events that the operations called from the polling loop produce: everything
  but an assignment to the offset, a dispatch and the polling loop's own error record.
\<close>

fun quiet :: "event \<Rightarrow> bool" where
  "quiet (SetOffset v) = False"
| "quiet (Dispatch i) = False"
| "quiet (Log PollingError) = False"
| "quiet e = True"

definition frame :: "actor \<Rightarrow> actor \<Rightarrow> bool" where
  "frame s s' \<longleftrightarrow>
     update_offset s' = update_offset s \<and> prefix (trace s) (trace s') \<and>
     list_all quiet (new_events s s')"

text \<open>
  The order the specification asks for, on the events of one iteration of the polling
  loop: no update is dispatched after the offset has been assigned.
\<close>

fun advance_follows_dispatch :: "event list \<Rightarrow> bool" where
  "advance_follows_dispatch [] = True"
| "advance_follows_dispatch (SetOffset v # evs) = (dispatched evs = [] \<and> advance_follows_dispatch evs)"
| "advance_follows_dispatch (e # evs) = advance_follows_dispatch evs"





section \<open>Example inputs\<close>

definition bare :: "int \<Rightarrow> tg_update" where
  "bare i = \<lparr>update_id = i, message = None\<rparr>"

definition small_config :: config where
  "small_config =
     \<lparr>max_message_length = 4, typing_cleanup_threshold = 10, max_typing_tasks = 2,
      welcome_text = py ''hi'', unknown_command_text = py ''?''\<rparr>"

text \<open>Every fetch returns the updates 101, 102 and 105.\<close>

definition env_batch :: env where
  "env_batch =
     \<lparr>answer = (\<lambda>k r. case r of GetUpdates off \<Rightarrow> Inr (Reply True [bare 101, bare 102, bare 105])
                         | _ \<Rightarrow> Inr (Reply True [])),
      is_running = (\<lambda>k. True), actor_system = True\<rparr>"

text \<open>Every awaited operation raises an exception: the network is down.\<close>

definition env_down :: env where
  "env_down = \<lparr>answer = (\<lambda>k r. Inl Exception), is_running = (\<lambda>k. True), actor_system = True\<rparr>"

text \<open>The first fetch returns update 9, every later one update 5.\<close>

definition env_rewind :: env where
  "env_rewind =
     \<lparr>answer = (\<lambda>k r. if k = 0 then Inr (Reply True [bare 9]) else Inr (Reply True [bare 5])),
      is_running = (\<lambda>k. True), actor_system = True\<rparr>"

text \<open>A fetch with offset \<open>off\<close> returns the updates \<open>off\<close> and \<open>off + 2\<close>.\<close>

definition env_honest :: env where
  "env_honest =
     \<lparr>answer = (\<lambda>k r. case r of GetUpdates off \<Rightarrow> Inr (Reply True [bare off, bare (off + 2)])
                         | _ \<Rightarrow> Inr (Reply True [])),
      is_running = (\<lambda>k. True), actor_system = True\<rparr>"

text \<open>The pool after \<open>start\<close> for chat 1 and then for chat 2: two running tasks.\<close>

definition two_running :: actor where
  "two_running =
     \<lparr>update_offset = 0, typing_tasks = [(1, Task 0 False), (2, Task 1 False)],
      typing_cleanup_counter = 2,
      trace = [Create 1 (Task 0 False), Create 2 (Task 1 False)]\<rparr>"


section \<open>Splitting: paragraphs, chunks and their lengths\<close>

lemma split_paragraphs_not_Nil: "split_paragraphs t \<noteq> []"
  by (induction t rule: split_paragraphs.induct) (auto split: list.splits)

lemma join_Cons: "ps \<noteq> [] \<Longrightarrow> join sep (p # ps) = p @ sep @ join sep ps"
  by (cases ps) auto

lemma join_split_paragraphs: "join para_sep (split_paragraphs t) = t"
proof (induction t rule: split_paragraphs.induct)
  case 1
  show ?case by simp
next
  case (2 c)
  show ?case by simp
next
  case (3 c d cs)
  show ?case
  proof (cases "c = 10 \<and> d = 10")
    case True
    with 3 show ?thesis
      by (simp add: join_Cons split_paragraphs_not_Nil para_sep_def)
  next
    case False
    obtain p ps where sp: "split_paragraphs (d # cs) = p # ps"
      using split_paragraphs_not_Nil [of "d # cs"] by (cases "split_paragraphs (d # cs)") auto
    from False 3 sp have "join para_sep (p # ps) = d # cs" by auto
    moreover have "join para_sep ((c # p) # ps) = c # join para_sep (p # ps)"
      by (cases ps) auto
    ultimately show ?thesis using False sp by auto
  qed
qed

lemma length_strip_le: "length (strip s) \<le> length s"
proof -
  have "length (strip s) = length (dropWhile isspace (rev (dropWhile isspace s)))"
    by (simp add: strip_def)
  also have "\<dots> \<le> length (rev (dropWhile isspace s))"
    by (rule length_dropWhile_le)
  also have "\<dots> = length (dropWhile isspace s)"
    by simp
  also have "\<dots> \<le> length s" by (rule length_dropWhile_le)
  finally show ?thesis .
qed

lemma strip_clean: "clean p \<Longrightarrow> strip p = p"
proof -
  assume c: "clean p"
  then have 1: "dropWhile isspace p = p"
    by (cases p) (auto simp: clean_def)
  from c have "rev p \<noteq> []" "\<not> isspace (hd (rev p))"
    by (auto simp: clean_def hd_rev)
  then have "dropWhile isspace (rev p) = rev p"
    by (cases "rev p") auto
  with 1 show ?thesis by (simp add: strip_def)
qed

lemma clean_glue: "clean a \<Longrightarrow> clean b \<Longrightarrow> clean (a @ para_sep @ b)"
  by (auto simp: clean_def)

lemma split_loop_bounded:
  assumes "\<forall>p \<in> set ps. int (length p) \<le> C"
    and "\<forall>c \<in> set chunks. int (length c) \<le> C"
    and "int (length current) \<le> C"
    and "split_loop C ps chunks current = (chunks', current')"
  shows "(\<forall>c \<in> set chunks'. int (length c) \<le> C) \<and> int (length current') \<le> C"
  using assms
proof (induction ps arbitrary: chunks current)
  case Nil
  then show ?case by simp
next
  case (Cons p ps)
  have sl: "int (length (strip current)) \<le> C"
    using length_strip_le [of current] Cons.prems(3) by linarith
  have rest: "\<forall>q \<in> set ps. int (length q) \<le> C" and p: "int (length p) \<le> C"
    using Cons.prems(1) by simp_all
  show ?case
  proof (cases "int (length current) + int (length p) + 2 > C")
    case True
    let ?chunks = "if current \<noteq> [] then chunks @ [strip current] else chunks"
    have run: "split_loop C ps ?chunks p = (chunks', current')"
      using Cons.prems(4) True by simp
    have "\<forall>c \<in> set ?chunks. int (length c) \<le> C"
      using Cons.prems(2) sl by auto
    with rest show ?thesis
      using p run by (rule Cons.IH)
  next
    case False
    let ?cur = "(if current \<noteq> [] then current @ para_sep else current) @ p"
    have run: "split_loop C ps chunks ?cur = (chunks', current')"
      using Cons.prems(4) False by simp
    have "int (length ?cur) \<le> C"
      using False p by (auto simp: para_sep_def)
    with rest Cons.prems(2) show ?thesis
      using run by (rule Cons.IH)
  qed
qed

text \<open>
  C2. Claimed: every chunk of the splitter has length at most \<open>C\<close>, also when a single
  paragraph is longer than \<open>C\<close>. The code never cuts inside a paragraph, so the bound
  holds for the texts in which no paragraph is longer than \<open>C\<close>: then every chunk has
  length at most \<open>C\<close>.
\<close>

theorem chunks_bounded:
  assumes "\<forall>p \<in> set (split_paragraphs text). int (length p) \<le> C"
  shows "\<forall>c \<in> set (split_long_message C text). int (length c) \<le> C"
proof (cases "int (length text) \<le> C")
  case True
  then show ?thesis by (simp add: split_long_message_def)
next
  case False
  obtain p where "p \<in> set (split_paragraphs text)"
    using split_paragraphs_not_Nil [of "text"] by (cases "split_paragraphs text") auto
  with assms have C0: "0 \<le> C" by fastforce
  obtain chunks current where sl: "split_loop C (split_paragraphs text) [] [] = (chunks, current)"
    by (cases "split_loop C (split_paragraphs text) [] []") auto
  from split_loop_bounded [OF assms _ _ sl] C0
  have b: "(\<forall>c \<in> set chunks. int (length c) \<le> C) \<and> int (length current) \<le> C" by simp
  have "int (length (strip current)) \<le> C"
    using length_strip_le [of current] b by linarith
  with b sl False show ?thesis by (auto simp: split_long_message_def)
qed

text \<open>
  The text \<open>"ab\n\ncd"\<close> with limit 4 is longer than the limit, its paragraphs are not,
  and it is split into the chunks \<open>"ab"\<close> and \<open>"cd"\<close>.
\<close>

theorem chunks_bounded_witness:
  "list_all (\<lambda>p. int (length p) \<le> 4) (split_paragraphs (py ''ab\<newline>\<newline>cd'')) \<and>
   split_long_message 4 (py ''ab\<newline>\<newline>cd'') = [py ''ab'', py ''cd''] \<and>
   list_all (\<lambda>c. int (length c) \<le> 4) (split_long_message 4 (py ''ab\<newline>\<newline>cd''))"
proof -
  have h: "\<forall>p \<in> set (split_paragraphs (py ''ab\<newline>\<newline>cd'')). int (length p) \<le> 4"
    by (simp add: py_def)
  have "split_long_message 4 (py ''ab\<newline>\<newline>cd'') = [py ''ab'', py ''cd'']"
    by (simp add: split_long_message_def py_def strip_def isspace_def para_sep_def)
  with h chunks_bounded [OF h] show ?thesis
    unfolding list_all_iff by blast
qed

text \<open>
  A text of eight letters and no paragraph break, with limit 4, comes back as one
  chunk of length 8.
\<close>

theorem long_paragraph_not_split:
  "split_long_message 4 (py ''aaaaaaaa'') = [py ''aaaaaaaa''] \<and>
   \<not> int (length (py ''aaaaaaaa'')) \<le> 4"
  by (simp add: split_long_message_def py_def strip_def isspace_def para_sep_def)

section \<open>Joining the chunks\<close>

lemma join_append:
  "xs \<noteq> [] \<Longrightarrow> ys \<noteq> [] \<Longrightarrow> join sep (xs @ ys) = join sep xs @ sep @ join sep ys"
proof (induction xs)
  case Nil
  then show ?case by simp
next
  case (Cons x xs)
  show ?case
  proof (cases "xs = []")
    case True
    with Cons.prems show ?thesis by (simp add: join_Cons)
  next
    case False
    with Cons show ?thesis by (simp add: join_Cons)
  qed
qed

lemma split_loop_join:
  assumes "\<forall>p \<in> set ps. clean p" and "current = [] \<or> clean current"
  shows "join para_sep
           (case split_loop C ps chunks current of
              (chunks', current') \<Rightarrow>
                if current' \<noteq> [] then chunks' @ [strip current'] else chunks') =
         join para_sep (chunks @ (if current = [] then [] else [current]) @ ps)"
  using assms
proof (induction ps arbitrary: chunks current)
  case Nil
  then show ?case by (auto simp: strip_clean)
next
  case (Cons p ps)
  have p: "clean p" "p \<noteq> []" and rest: "\<forall>q \<in> set ps. clean q"
    using Cons.prems(1) by (auto simp: clean_def)
  show ?case
  proof (cases "int (length current) + int (length p) + 2 > C")
    case True
    let ?chunks = "if current \<noteq> [] then chunks @ [strip current] else chunks"
    have "join para_sep
           (case split_loop C ps ?chunks p of
              (chunks', current') \<Rightarrow>
                if current' \<noteq> [] then chunks' @ [strip current'] else chunks') =
          join para_sep (?chunks @ (if p = [] then [] else [p]) @ ps)"
      using rest p(1) by (intro Cons.IH) simp_all
    moreover have "?chunks = chunks @ (if current = [] then [] else [current])"
      using Cons.prems(2) by (auto simp: strip_clean)
    ultimately show ?thesis using True p(2) by simp
  next
    case False
    let ?cur = "(if current \<noteq> [] then current @ para_sep else current) @ p"
    have cur: "clean ?cur" "?cur \<noteq> []"
      using Cons.prems(2) p clean_glue [of current p] by auto
    have "join para_sep
           (case split_loop C ps chunks ?cur of
              (chunks', current') \<Rightarrow>
                if current' \<noteq> [] then chunks' @ [strip current'] else chunks') =
          join para_sep (chunks @ (if ?cur = [] then [] else [?cur]) @ ps)"
      using rest cur(1) by (intro Cons.IH) simp_all
    then have run: "join para_sep
           (case split_loop C ps chunks ?cur of
              (chunks', current') \<Rightarrow>
                if current' \<noteq> [] then chunks' @ [strip current'] else chunks') =
          join para_sep (chunks @ ?cur # ps)"
      using cur(2) by simp
    have glue: "join para_sep (chunks @ ?cur # ps) =
        join para_sep (chunks @ (if current = [] then [] else [current]) @ p # ps)"
    proof (cases "current = []")
      case True
      then show ?thesis by simp
    next
      case cne: False
      have a: "join para_sep ((current @ para_sep @ p) # ps) = join para_sep (current # p # ps)"
        by (cases ps) auto
      show ?thesis
      proof (cases "chunks = []")
        case True
        with cne a show ?thesis by simp
      next
        case False
        with cne a show ?thesis
          using join_append [of chunks "(current @ para_sep @ p) # ps" para_sep]
            join_append [of chunks "current # p # ps" para_sep] by simp
      qed
    qed
    show ?thesis using False run glue by simp
  qed
qed

lemma chunks_rejoin_clean:
  assumes "\<forall>p \<in> set (split_paragraphs text). clean p"
  shows "join para_sep (split_long_message C text) = text"
proof (cases "int (length text) \<le> C")
  case True
  then show ?thesis by (simp add: split_long_message_def)
next
  case False
  then show ?thesis
    using split_loop_join [OF assms, of "[]" C "[]"]
    by (simp add: split_long_message_def join_split_paragraphs)
qed

text \<open>
  C4. Claimed: when no paragraph is longer than \<open>C\<close>, joining the chunks with the
  paragraph separator gives the text back. The code strips every chunk and drops empty
  ones, so this holds when, in addition, every paragraph is clean (not empty, no
  whitespace at either end): then joining the chunks with \<open>"\n\n"\<close> gives the text.
\<close>

theorem chunks_rejoin:
  assumes "\<forall>p \<in> set (split_paragraphs text). int (length p) \<le> C"
    and "\<forall>p \<in> set (split_paragraphs text). clean p"
  shows "join para_sep (split_long_message C text) = text"
  using assms(2) by (rule chunks_rejoin_clean)

text \<open>The text \<open>"ab\n\ncd\n\ne"\<close> with limit 4: three chunks, joined back to the text.\<close>

theorem chunks_rejoin_witness:
  "list_all (\<lambda>p. int (length p) \<le> 4) (split_paragraphs (py ''ab\<newline>\<newline>cd\<newline>\<newline>e'')) \<and>
   list_all clean (split_paragraphs (py ''ab\<newline>\<newline>cd\<newline>\<newline>e'')) \<and>
   split_long_message 4 (py ''ab\<newline>\<newline>cd\<newline>\<newline>e'') = [py ''ab'', py ''cd'', py ''e''] \<and>
   join para_sep (split_long_message 4 (py ''ab\<newline>\<newline>cd\<newline>\<newline>e'')) = py ''ab\<newline>\<newline>cd\<newline>\<newline>e''"
proof -
  have h1: "\<forall>p \<in> set (split_paragraphs (py ''ab\<newline>\<newline>cd\<newline>\<newline>e'')). int (length p) \<le> 4"
    by (simp add: py_def)
  have h2: "\<forall>p \<in> set (split_paragraphs (py ''ab\<newline>\<newline>cd\<newline>\<newline>e'')). clean p"
    by (simp add: py_def clean_def isspace_def)
  have "split_long_message 4 (py ''ab\<newline>\<newline>cd\<newline>\<newline>e'') = [py ''ab'', py ''cd'', py ''e'']"
    by (simp add: split_long_message_def py_def strip_def isspace_def para_sep_def)
  with h1 h2 chunks_rejoin [OF h1 h2] show ?thesis
    unfolding list_all_iff by blast
qed

text \<open>
  The text \<open>"ab\n\n cd"\<close> with limit 4: no paragraph is longer than 4, the second
  chunk loses its leading blank, and the joined chunks differ from the text.
\<close>

theorem strip_breaks_rejoin:
  "list_all (\<lambda>p. int (length p) \<le> 4) (split_paragraphs (py ''ab\<newline>\<newline> cd'')) \<and>
   split_long_message 4 (py ''ab\<newline>\<newline> cd'') = [py ''ab'', py ''cd''] \<and>
   join para_sep (split_long_message 4 (py ''ab\<newline>\<newline> cd'')) \<noteq> py ''ab\<newline>\<newline> cd''"
  by (simp add: split_long_message_def py_def strip_def isspace_def para_sep_def)

section \<open>A text of paragraph separators only\<close>

lemma split_paragraphs_blank:
  "split_paragraphs (concat (replicate n para_sep)) = replicate (Suc n) []"
  by (induction n) (auto simp: para_sep_def)

lemma split_loop_blank: "split_loop C (replicate k []) chunks [] = (chunks, [])"
  by (induction k arbitrary: chunks) auto

lemma length_blank: "length (concat (replicate n para_sep)) = 2 * n"
  by (induction n) (auto simp: para_sep_def)

lemma blank_text_no_chunks:
  assumes "C < 2 * int n"
  shows "split_long_message C (concat (replicate n para_sep)) = []"
proof -
  have "\<not> int (length (concat (replicate n para_sep))) \<le> C"
    using assms by (simp add: length_blank)
  then show ?thesis
    unfolding split_long_message_def split_paragraphs_blank split_loop_blank by simp
qed

text \<open>
  C10. For every limit there is a text that is not empty, is longer than the limit and
  consists of paragraph separators only, for which the splitter returns no chunk, and
  \<open>send_message\<close> on it returns with the state, and so the trace, unchanged: no call
  of the API is made.
\<close>

theorem blank_message_sends_nothing:
  "\<exists>text. text \<noteq> [] \<and> max_message_length cfg < int (length text) \<and>
          text = concat (replicate (length text div 2) para_sep) \<and>
          split_long_message (max_message_length cfg) text = [] \<and>
          send_message cfg env chat_id text s = (Inr (), s)"
proof -
  let ?n = "Suc (nat (max_message_length cfg))"
  let ?t = "concat (replicate ?n para_sep)"
  have len: "length ?t = 2 * ?n" by (rule length_blank)
  have big: "max_message_length cfg < 2 * int ?n" by simp
  have empty: "split_long_message (max_message_length cfg) ?t = []"
    using big by (rule blank_text_no_chunks)
  have "?t \<noteq> []" using len by auto
  moreover have "max_message_length cfg < int (length ?t)" using big len by simp
  moreover have "?t = concat (replicate (length ?t div 2) para_sep)" using len by simp
  moreover have "send_message cfg env chat_id ?t s = (Inr (), s)"
    using empty by (simp add: send_message_def)
  ultimately show ?thesis using empty by blast
qed

section \<open>Traces of the operations\<close>

lemma dispatched_append [simp]: "dispatched (a @ b) = dispatched a @ dispatched b"
  by (simp add: dispatched_def)

lemma dispatched_Nil [simp]: "dispatched [] = []"
  by (simp add: dispatched_def)

lemma dispatched_Cons_Dispatch [simp]: "dispatched (Dispatch i # evs) = i # dispatched evs"
  by (simp add: dispatched_def)

lemma dispatched_quiet: "list_all quiet evs \<Longrightarrow> dispatched evs = []"
proof (induction evs)
  case Nil
  show ?case by simp
next
  case (Cons e evs)
  then show ?case by (cases e) (simp_all add: dispatched_def)
qed

lemma quiet_no_offset: "list_all quiet evs \<Longrightarrow> SetOffset v \<notin> set evs"
  by (auto simp: list_all_iff)

lemma quiet_no_error: "list_all quiet evs \<Longrightarrow> Log PollingError \<notin> set evs"
  by (auto simp: list_all_iff)

lemma frameI:
  "trace s' = trace s @ evs \<Longrightarrow> list_all quiet evs \<Longrightarrow> update_offset s' = update_offset s \<Longrightarrow>
   frame s s'"
  by (simp add: frame_def new_events_def)

lemma frameD:
  assumes "frame s s'"
  shows "\<exists>evs. trace s' = trace s @ evs \<and> list_all quiet evs"
proof -
  from assms obtain evs where e: "trace s' = trace s @ evs"
    by (auto simp: frame_def prefix_def)
  with assms have "list_all quiet evs" by (simp add: frame_def new_events_def)
  with e show ?thesis by blast
qed

lemma frame_offset: "frame s s' \<Longrightarrow> update_offset s' = update_offset s"
  by (simp add: frame_def)

lemma frame_refl [simp]: "frame s s"
  by (simp add: frame_def new_events_def)

lemma frame_emit: "quiet e \<Longrightarrow> frame s s' \<Longrightarrow> frame s (emit e s')"
proof -
  assume q: "quiet e" and f: "frame s s'"
  from frameD [OF f] obtain evs where e: "trace s' = trace s @ evs" "list_all quiet evs" by blast
  show ?thesis
  proof (rule frameI)
    show "trace (emit e s') = trace s @ (evs @ [e])" using e by (simp add: emit_def)
    show "list_all quiet (evs @ [e])" using e q by simp
    show "update_offset (emit e s') = update_offset s" using f by (simp add: emit_def frame_def)
  qed
qed

lemma frame_tasks [simp]: "frame s (s'\<lparr>typing_tasks := d\<rparr>) = frame s s'"
  by (simp add: frame_def new_events_def)

lemma frame_counter [simp]: "frame s (s'\<lparr>typing_cleanup_counter := n\<rparr>) = frame s s'"
  by (simp add: frame_def new_events_def)

lemma frame_await: "frame s s0 \<Longrightarrow> frame s (snd (await env r s0))"
  by (simp add: await_def frame_emit)

lemma frame_api_call: "frame s s0 \<Longrightarrow> frame s (snd (api_call env r s0))"
  by (simp add: api_call_def await_def frame_emit split: sum.splits reply.splits)

lemma frame_send_chunk: "frame s s0 \<Longrightarrow> frame s (snd (send_chunk env c chunk s0))"
proof -
  assume f: "frame s s0"
  let ?r1 = "api_call env (SendMessage c chunk True) s0"
  have f1: "frame s (snd ?r1)" using f by (rule frame_api_call)
  let ?s2 = "emit (Log (SendFailed c)) (snd ?r1)"
  have f2: "frame s ?s2" using f1 by (simp add: frame_emit)
  let ?r3 = "api_call env (SendMessage c chunk False) ?s2"
  have f3: "frame s (snd ?r3)" using f2 by (rule frame_api_call)
  have f4: "frame s (emit (Log PlainSendFailed) (snd ?r3))" using f3 by (simp add: frame_emit)
  show ?thesis
  proof (cases ?r1)
    case (Pair a s1)
    note r1 = this
    show ?thesis
    proof (cases ?r3)
      case (Pair b s3)
      with r1 f1 f3 f4 show ?thesis
        by (simp add: send_chunk_def split: sum.splits exc.splits)
    qed
  qed
qed

lemma frame_send_chunks: "frame s s0 \<Longrightarrow> frame s (snd (send_chunks env c chunks s0))"
proof (induction chunks arbitrary: s0)
  case Nil
  then show ?case by simp
next
  case (Cons chunk chunks)
  have f1: "frame s (snd (send_chunk env c chunk s0))"
    using Cons.prems by (rule frame_send_chunk)
  show ?case
  proof (cases "send_chunk env c chunk s0")
    case (Pair a s1)
    with f1 Cons.IH [of s1] show ?thesis by (simp split: sum.splits)
  qed
qed

lemma frame_send_message: "frame s s0 \<Longrightarrow> frame s (snd (send_message cfg env c txt s0))"
  by (simp add: send_message_def frame_send_chunks)

lemma frame_handle_command: "frame s s0 \<Longrightarrow> frame s (snd (handle_command cfg env c cmd s0))"
  by (simp add: handle_command_def frame_send_message)

lemma frame_stop_typing: "frame s s0 \<Longrightarrow> frame s (stop_typing c s0)"
  by (simp add: stop_typing_def frame_emit split: option.splits)

lemma frame_cleanup: "frame s s0 \<Longrightarrow> frame s (cleanup_typing_tasks s0)"
  by (simp add: cleanup_typing_tasks_def Let_def frame_emit)

lemma frame_evict: "frame s s0 \<Longrightarrow> frame s (snd (evict n s0))"
proof (induction n arbitrary: s0)
  case 0
  then show ?case by simp
next
  case (Suc n)
  show ?case
  proof (cases "typing_tasks s0")
    case Nil
    with Suc.prems show ?thesis by simp
  next
    case (Cons a d)
    obtain c t where a: "a = (c, t)" by (cases a)
    have "frame s (emit (Cancel c t) (s0\<lparr>typing_tasks := AList.delete c (typing_tasks s0)\<rparr>))"
      using Suc.prems by (simp add: frame_emit)
    from Suc.IH [OF this] Cons a show ?thesis by simp
  qed
qed

lemma frame_enforce_limit: "frame s s0 \<Longrightarrow> frame s (snd (enforce_limit cfg s0))"
proof -
  assume f: "frame s s0"
  let ?s1 = "cleanup_typing_tasks (emit (Log LimitReached) s0)"
  have f1: "frame s ?s1" using f by (simp add: frame_cleanup frame_emit)
  let ?k = "max 1 (length (typing_tasks ?s1) div 10)"
  have f2: "frame s (snd (evict ?k ?s1))" using f1 by (rule frame_evict)
  have f3: "frame s (emit (Log (ForcefullyRemoved ?k)) (snd (evict ?k ?s1)))"
    using f2 by (simp add: frame_emit)
  show ?thesis
  proof (cases "evict ?k ?s1")
    case (Pair a s2)
    with f f1 f2 f3 show ?thesis
      by (simp add: enforce_limit_def Let_def split: sum.splits)
  qed
qed

lemma frame_create_task: "frame s s0 \<Longrightarrow> frame s (create_task c s0)"
  by (simp add: create_task_def Let_def frame_emit)

lemma frame_start_typing: "frame s s0 \<Longrightarrow> frame s (snd (start_typing cfg c s0))"
proof -
  assume f: "frame s s0"
  let ?s1 = "stop_typing c s0"
  let ?s2 = "?s1\<lparr>typing_cleanup_counter := typing_cleanup_counter ?s1 + 1\<rparr>"
  let ?s3 = "if typing_cleanup_counter ?s2 \<ge> typing_cleanup_threshold cfg
             then (cleanup_typing_tasks ?s2)\<lparr>typing_cleanup_counter := 0\<rparr> else ?s2"
  have f2: "frame s ?s2" using f by (simp add: frame_stop_typing)
  have f3: "frame s ?s3" using f2 by (simp add: frame_cleanup)
  have f4: "frame s (snd (enforce_limit cfg ?s3))" using f3 by (rule frame_enforce_limit)
  have f5: "frame s (create_task c (snd (enforce_limit cfg ?s3)))"
    using f4 by (rule frame_create_task)
  show ?thesis
  proof (cases "enforce_limit cfg ?s3")
    case (Pair a s4)
    with f4 f5 show ?thesis
      unfolding start_typing_def Let_def by (simp split: sum.splits)
  qed
qed

lemma frame_process_update: "frame s s0 \<Longrightarrow> frame s (snd (process_update cfg env u s0))"
proof -
  assume f: "frame s s0"
  show ?thesis
  proof (cases "message u")
    case None
    with f show ?thesis by (simp add: process_update_def)
  next
    case (Some m)
    note m = this
    show ?thesis
    proof (cases "chat m")
      case None
      with f m show ?thesis by (simp add: process_update_def)
    next
      case (Some c)
      note c = this
      show ?thesis
      proof (cases "sender m")
        case None
        with f m c show ?thesis by (simp add: process_update_def)
      next
        case (Some from_user)
        obtain uid uname where sn: "from_user = (uid, uname)" by (cases from_user)
        have fc: "frame s (snd (handle_command cfg env c (msg_text m) s0))"
          using f by (rule frame_handle_command)
        have f1: "frame s (snd (start_typing cfg c s0))"
          using f by (rule frame_start_typing)
        let ?s1 = "snd (start_typing cfg c s0)"
        have f2: "frame s (snd (await env (SendToSelf uid c uname (msg_text m)) ?s1))"
          using f1 by (rule frame_await)
        have f3: "frame s (emit (Log (Queued uid)) (snd (await env (SendToSelf uid c uname (msg_text m)) ?s1)))"
          using f2 by (simp add: frame_emit)
        have f4: "frame s (emit (Log (Queued uid)) ?s1)"
          using f1 by (simp add: frame_emit)
        show ?thesis
        proof (cases "start_typing cfg c s0")
          case (Pair a s1)
          note st = this
          show ?thesis
          proof (cases "await env (SendToSelf uid c uname (msg_text m)) s1")
            case (Pair b s2)
            with st f fc f1 f2 f3 f4 m c Some sn show ?thesis
              by (simp add: process_update_def split: sum.splits)
          qed
        qed
      qed
    qed
  qed
qed


section \<open>The polling loop and the offset\<close>

lemma process_updates_trace:
  "\<exists>evs. trace (snd (process_updates cfg env us s)) = trace s @ evs \<and>
         update_offset (snd (process_updates cfg env us s)) = update_offset s \<and>
         prefix (dispatched evs) (map update_id us) \<and>
         (fst (process_updates cfg env us s) = Inr () \<longrightarrow> dispatched evs = map update_id us) \<and>
         (\<forall>v. SetOffset v \<notin> set evs) \<and> Log PollingError \<notin> set evs"
proof (induction us arbitrary: s)
  case Nil
  show ?case by simp
next
  case (Cons u us)
  let ?s0 = "emit (Dispatch (update_id u)) s"
  obtain a s1 where pu: "process_update cfg env u ?s0 = (a, s1)"
    by (cases "process_update cfg env u ?s0")
  have "frame ?s0 (snd (process_update cfg env u ?s0))"
    by (rule frame_process_update) simp
  with pu have f: "frame ?s0 s1" by simp
  from frameD [OF f] obtain q where q: "trace s1 = trace ?s0 @ q" "list_all quiet q" by blast
  have off: "update_offset s1 = update_offset s"
    using frame_offset [OF f] by (simp add: emit_def)
  have tr: "trace s1 = trace s @ Dispatch (update_id u) # q"
    using q(1) by (simp add: emit_def)
  have dq: "dispatched q = []" using q(2) by (rule dispatched_quiet)
  have nq: "\<forall>v. SetOffset v \<notin> set q" "Log PollingError \<notin> set q"
    using q(2) by (auto simp: list_all_iff)
  show ?case
  proof (cases a)
    case (Inl e)
    with pu have "process_updates cfg env (u # us) s = (Inl e, s1)" by simp
    with tr off dq nq show ?thesis by auto
  next
    case (Inr x)
    with pu have run: "process_updates cfg env (u # us) s = process_updates cfg env us s1" by simp
    from Cons.IH [of s1] obtain evs where
      e: "trace (snd (process_updates cfg env us s1)) = trace s1 @ evs"
        "update_offset (snd (process_updates cfg env us s1)) = update_offset s1"
        "prefix (dispatched evs) (map update_id us)"
        "fst (process_updates cfg env us s1) = Inr () \<longrightarrow> dispatched evs = map update_id us"
        "\<forall>v. SetOffset v \<notin> set evs" "Log PollingError \<notin> set evs"
      by blast
    let ?evs = "Dispatch (update_id u) # q @ evs"
    have "trace (snd (process_updates cfg env (u # us) s)) = trace s @ ?evs"
      using run e(1) tr by simp
    moreover have "dispatched ?evs = update_id u # dispatched evs"
      using dq by simp
    moreover have "(\<forall>v. SetOffset v \<notin> set ?evs) \<and> Log PollingError \<notin> set ?evs"
      using nq e(5,6) by auto
    ultimately show ?thesis
      using run e(2,3,4) off by (intro exI [of _ ?evs]) simp
  qed
qed

lemma get_updates_batch:
  assumes "answer env (length (trace s)) (GetUpdates (update_offset s)) = Inr (Reply True us)"
    and "us \<noteq> []"
  shows "get_updates env s =
    (Inr us, s\<lparr>update_offset := update_id (last us) + 1,
               trace := trace s @ [Await (GetUpdates (update_offset s)),
                                   SetOffset (update_id (last us) + 1)]\<rparr>)"
  using assms by (simp add: get_updates_def api_call_def await_def emit_def)

lemma polling_iteration_cases:
  "(fst (polling_body cfg env s) = Inr () \<and>
      polling_iteration cfg env s = (Continue, snd (polling_body cfg env s))) \<or>
   (fst (polling_body cfg env s) = Inl CancelledError \<and>
      polling_iteration cfg env s = (Break, snd (polling_body cfg env s))) \<or>
   (trace (snd (polling_iteration cfg env s)) =
      trace (snd (polling_body cfg env s)) @ [Log PollingError, Await (Sleep 5)] \<and>
    update_offset (snd (polling_iteration cfg env s)) = update_offset (snd (polling_body cfg env s)))"
proof (cases "polling_body cfg env s")
  case (Pair a s2)
  show ?thesis
  proof (cases a)
    case (Inr x)
    with Pair show ?thesis by (simp add: polling_iteration_def)
  next
    case (Inl e)
    with Pair show ?thesis
      by (cases e) (simp_all add: polling_iteration_def await_def emit_def split: sum.splits)
  qed
qed

lemma polling_iteration_offset:
  "update_offset (snd (polling_iteration cfg env s)) = update_offset (snd (get_updates env s))"
proof -
  have "update_offset (snd (polling_body cfg env s)) = update_offset (snd (get_updates env s))"
  proof (cases "get_updates env s")
    case (Pair a s1)
    show ?thesis
    proof (cases a)
      case (Inl e)
      with Pair show ?thesis by (simp add: polling_body_def)
    next
      case (Inr us)
      with Pair process_updates_trace [of cfg env us s1] show ?thesis
        by (auto simp: polling_body_def)
    qed
  qed
  with polling_iteration_cases [of cfg env s] show ?thesis by auto
qed

text \<open>
  C1. Claimed: the polling loop dispatches every update of a fetched batch before the
  offset is advanced. In the code the offset is assigned inside \<open>get_updates\<close>, before
  the loop over the batch starts. What holds: after a fetch that returns a batch that
  is not empty, the events of the iteration are the fetch, then the assignment of the
  last update id plus one to the offset, then the rest, in which the offset is not
  assigned again and the updates are dispatched in the order of the batch, all of them
  unless a dispatch raised.
\<close>

theorem cursor_advanced_at_fetch:
  assumes "answer env (length (trace s)) (GetUpdates (update_offset s)) = Inr (Reply True us)"
    and "us \<noteq> []"
  shows "\<exists>rest. trace (snd (polling_iteration cfg env s)) =
                  trace s @ [Await (GetUpdates (update_offset s)),
                             SetOffset (update_id (last us) + 1)] @ rest \<and>
                (\<forall>v. SetOffset v \<notin> set rest) \<and>
                prefix (dispatched rest) (map update_id us) \<and>
                (fst (polling_iteration cfg env s) = Continue \<and> Log PollingError \<notin> set rest
                   \<longrightarrow> dispatched rest = map update_id us)"
proof -
  let ?s1 = "s\<lparr>update_offset := update_id (last us) + 1,
               trace := trace s @ [Await (GetUpdates (update_offset s)),
                                   SetOffset (update_id (last us) + 1)]\<rparr>"
  have body: "polling_body cfg env s = process_updates cfg env us ?s1"
    using get_updates_batch [OF assms] by (simp add: polling_body_def)
  from process_updates_trace [of cfg env us ?s1] obtain evs where
    e: "trace (snd (process_updates cfg env us ?s1)) = trace ?s1 @ evs"
      "prefix (dispatched evs) (map update_id us)"
      "fst (process_updates cfg env us ?s1) = Inr () \<longrightarrow> dispatched evs = map update_id us"
      "\<forall>v. SetOffset v \<notin> set evs" "Log PollingError \<notin> set evs"
    by blast
  from polling_iteration_cases [of cfg env s]
  consider (ok) "fst (polling_body cfg env s) = Inr ()"
      "polling_iteration cfg env s = (Continue, snd (polling_body cfg env s))"
    | (cancel) "polling_iteration cfg env s = (Break, snd (polling_body cfg env s))"
    | (err) "trace (snd (polling_iteration cfg env s)) =
      trace (snd (polling_body cfg env s)) @ [Log PollingError, Await (Sleep 5)]"
    by blast
  then show ?thesis
  proof cases
    case ok
    with body e show ?thesis by (intro exI [of _ evs]) simp
  next
    case cancel
    with body e show ?thesis by (intro exI [of _ evs]) simp
  next
    case err
    with body e show ?thesis
      by (intro exI [of _ "evs @ [Log PollingError, Await (Sleep 5)]"])
        (simp add: dispatched_def)
  qed
qed

text \<open>A fetch from the initial state that returns the updates 101, 102 and 105.\<close>

theorem cursor_advanced_at_fetch_witness:
  "answer env_batch (length (trace init)) (GetUpdates (update_offset init)) =
     Inr (Reply True [bare 101, bare 102, bare 105]) \<and>
   [bare 101, bare 102, bare 105] \<noteq> [] \<and>
   (\<exists>rest. trace (snd (polling_iteration small_config env_batch init)) =
             [Await (GetUpdates 0), SetOffset 106] @ rest \<and>
           prefix (dispatched rest) [101, 102, 105])"
proof -
  have h: "answer env_batch (length (trace init)) (GetUpdates (update_offset init)) =
     Inr (Reply True [bare 101, bare 102, bare 105])"
    by (simp add: env_batch_def)
  have n: "[bare 101, bare 102, bare 105] \<noteq> []" by simp
  from cursor_advanced_at_fetch [OF h n, of small_config] h show ?thesis
    by (auto simp: init_def bare_def)
qed

text \<open>
  The same iteration, event by event: the offset is set to 106 before the first of
  the three updates is dispatched.
\<close>

theorem cursor_advanced_before_dispatch:
  "new_events init (snd (polling_iteration small_config env_batch init)) =
     [Await (GetUpdates 0), SetOffset 106, Dispatch 101, Dispatch 102, Dispatch 105] \<and>
   \<not> advance_follows_dispatch
       (new_events init (snd (polling_iteration small_config env_batch init)))"
  by (simp add: polling_iteration_def polling_body_def get_updates_def api_call_def await_def
      emit_def init_def env_batch_def bare_def process_update_def new_events_def dispatched_def)

lemma last_sorted_Max:
  fixes xs :: "int list"
  assumes "sorted xs" and "xs \<noteq> []"
  shows "last xs = Max (set xs)"
proof -
  have "\<forall>y \<in> set xs. y \<le> last xs"
    using assms by (induction xs) (auto split: if_splits)
  moreover have "last xs \<in> set xs" using assms(2) by simp
  ultimately have "Max (set xs) = last xs"
    by (intro Max_eqI) auto
  then show ?thesis by simp
qed

text \<open>
  C6. After a fetch that returns a batch that is not empty and is ordered by update
  id, the offset at the end of the iteration, after the dispatch, is the greatest
  update id plus one.
\<close>

theorem cursor_after_batch:
  assumes "answer env (length (trace s)) (GetUpdates (update_offset s)) = Inr (Reply True us)"
    and "us \<noteq> []"
    and "sorted (map update_id us)"
  shows "update_offset (snd (polling_iteration cfg env s)) = Max (set (map update_id us)) + 1"
proof -
  have "update_offset (snd (polling_iteration cfg env s)) = update_id (last us) + 1"
    using get_updates_batch [OF assms(1,2)] by (simp add: polling_iteration_offset)
  moreover have "update_id (last us) = last (map update_id us)"
    using assms(2) by (simp add: last_map)
  moreover have "last (map update_id us) = Max (set (map update_id us))"
    using assms(2,3) by (intro last_sorted_Max) simp_all
  ultimately show ?thesis by simp
qed

text \<open>The batch with the update ids 101, 102 and 105 leaves the offset at 106.\<close>

theorem cursor_after_batch_witness:
  "answer env_batch (length (trace init)) (GetUpdates (update_offset init)) =
     Inr (Reply True [bare 101, bare 102, bare 105]) \<and>
   map update_id [bare 101, bare 102, bare 105] = [101, 102, 105] \<and>
   sorted (map update_id [bare 101, bare 102, bare 105]) \<and>
   update_offset (snd (polling_iteration small_config env_batch init)) = 106"
proof -
  have h: "answer env_batch (length (trace init)) (GetUpdates (update_offset init)) =
     Inr (Reply True [bare 101, bare 102, bare 105])"
    by (simp add: env_batch_def)
  have n: "[bare 101, bare 102, bare 105] \<noteq> []" by simp
  have m: "map update_id [bare 101, bare 102, bare 105] = [101, 102, 105]"
    by (simp add: bare_def)
  have so: "sorted (map update_id [bare 101, bare 102, bare 105])"
    by (simp add: bare_def)
  from cursor_after_batch [OF h n so, of small_config] h m so show ?thesis by simp
qed

lemma get_updates_offset_mono:
  assumes "\<forall>k off us. answer env k (GetUpdates off) = Inr (Reply True us) \<longrightarrow>
             (\<forall>u \<in> set us. off \<le> update_id u)"
  shows "update_offset s \<le> update_offset (snd (get_updates env s))"
proof (cases "answer env (length (trace s)) (GetUpdates (update_offset s))")
  case (Inl e)
  then show ?thesis
    by (cases e) (simp_all add: get_updates_def api_call_def await_def emit_def)
next
  case (Inr rep)
  obtain ok us where rep: "rep = Reply ok us" by (cases rep)
  show ?thesis
  proof (cases "ok \<and> us \<noteq> []")
    case True
    with Inr rep assms have "update_offset s \<le> update_id (last us)"
      by (metis last_in_set)
    with True Inr rep show ?thesis
      by (simp add: get_updates_def api_call_def await_def emit_def)
  next
    case False
    with Inr rep show ?thesis
      by (auto simp: get_updates_def api_call_def await_def emit_def)
  qed
qed

text \<open>
  C7. Claimed: no sequence of fetches ever decreases the offset. The code assigns the
  last update id plus one without comparing it with the offset, so this holds when the
  server keeps to the offset it was asked for, that is when every update it returns has
  an id not below the requested offset: then the offset never decreases, over any
  number of iterations, whatever the fetches return or raise.
\<close>

theorem cursor_monotone:
  assumes "\<forall>k off us. answer env k (GetUpdates off) = Inr (Reply True us) \<longrightarrow>
             (\<forall>u \<in> set us. off \<le> update_id u)"
  shows "update_offset s \<le> update_offset (snd (polling_loop cfg env fuel s))"
proof (induction fuel arbitrary: s)
  case 0
  show ?case by simp
next
  case (Suc fuel)
  have step: "update_offset s \<le> update_offset (snd (polling_iteration cfg env s))"
    using get_updates_offset_mono [OF assms, of s] by (simp add: polling_iteration_offset)
  show ?case
  proof (cases "is_running env (length (trace s))")
    case False
    then show ?thesis by (simp add: emit_def)
  next
    case True
    obtain c s' where it: "polling_iteration cfg env s = (c, s')"
      by (cases "polling_iteration cfg env s")
    with step have le: "update_offset s \<le> update_offset s'" by simp
    show ?thesis
    proof (cases c)
      case Continue
      with True it le Suc.IH [of s'] show ?thesis by simp
    next
      case Break
      with True it le show ?thesis by (simp add: emit_def)
    next
      case (Raise e)
      with True it le show ?thesis by simp
    qed
  qed
qed

lemma env_honest_protocol:
  "\<forall>k off us. answer env_honest k (GetUpdates off) = Inr (Reply True us) \<longrightarrow>
     (\<forall>u \<in> set us. off \<le> update_id u)"
  by (auto simp: env_honest_def bare_def)

text \<open>Two iterations with a server that keeps to the offset: the offset goes to 3 and to 6.\<close>

theorem cursor_monotone_witness:
  "update_offset (snd (polling_loop small_config env_honest 2 init)) = 6 \<and>
   update_offset init \<le> update_offset (snd (polling_loop small_config env_honest 2 init))"
proof -
  have "update_offset (snd (polling_loop small_config env_honest 2 init)) = 6"
    by (simp add: numeral_2_eq_2 polling_iteration_def polling_body_def get_updates_def
        api_call_def await_def emit_def init_def env_honest_def bare_def process_update_def)
  with cursor_monotone [OF env_honest_protocol, of init small_config 2] show ?thesis by simp
qed

text \<open>
  A server that returns update 9 and then update 5: the offset is 10 after the first
  iteration and 6 after the second.
\<close>

theorem cursor_rewinds:
  "update_offset (snd (polling_loop small_config env_rewind 1 init)) = 10 \<and>
   update_offset (snd (polling_loop small_config env_rewind 2 init)) = 6 \<and>
   trace (snd (polling_loop small_config env_rewind 2 init)) =
     [Await (GetUpdates 0), SetOffset 10, Dispatch 9,
      Await (GetUpdates 10), SetOffset 6, Dispatch 5]"
  by (simp add: numeral_2_eq_2 polling_iteration_def polling_body_def get_updates_def
      api_call_def await_def emit_def init_def env_rewind_def bare_def process_update_def)

text \<open>
  C3. Claimed: when a fetch fails for another reason than a timeout, the polling loop
  records the failure and sleeps 5 before the next fetch. With the network down, one
  iteration from the initial state records the failure inside \<open>get_updates\<close> and goes
  on at once: no sleep is awaited.
\<close>

theorem fetch_failure_no_pause:
  "polling_iteration small_config env_down init =
     (Continue, init\<lparr>trace := [Await (GetUpdates 0), Log GetUpdatesFailed]\<rparr>)"
  by (simp add: polling_iteration_def polling_body_def get_updates_def
      api_call_def await_def emit_def init_def env_down_def)

section \<open>Sending a chunk\<close>






section \<open>One typing task for each chat\<close>

lemma typing_tasks_emit [simp]: "typing_tasks (emit e s) = typing_tasks s"
  by (simp add: emit_def)

lemma trace_emit [simp]: "trace (emit e s) = trace s @ [e]"
  by (simp add: emit_def)

lemma distinct_fold_delete:
  "distinct (map fst d) \<Longrightarrow> distinct (map fst (fold AList.delete ks d))"
  by (induction ks arbitrary: d) (simp_all add: distinct_delete)

lemma distinct_stop_typing:
  "distinct (map fst (typing_tasks s)) \<Longrightarrow> distinct (map fst (typing_tasks (stop_typing c s)))"
  by (simp add: stop_typing_def distinct_delete split: option.splits)

lemma distinct_cleanup:
  "distinct (map fst (typing_tasks s)) \<Longrightarrow>
   distinct (map fst (typing_tasks (cleanup_typing_tasks s)))"
  by (simp add: cleanup_typing_tasks_def Let_def distinct_fold_delete)

lemma distinct_evict:
  "distinct (map fst (typing_tasks s)) \<Longrightarrow> distinct (map fst (typing_tasks (snd (evict n s))))"
proof (induction n arbitrary: s)
  case 0
  then show ?case by simp
next
  case (Suc n)
  show ?case
  proof (cases "typing_tasks s")
    case Nil
    then show ?thesis by simp
  next
    case (Cons a d)
    obtain c t where a: "a = (c, t)" by (cases a)
    let ?s = "emit (Cancel c t) (s\<lparr>typing_tasks := AList.delete c (typing_tasks s)\<rparr>)"
    have "distinct (map fst (typing_tasks ?s))"
      using Suc.prems by (simp add: distinct_delete)
    from Suc.IH [OF this] Cons a show ?thesis by simp
  qed
qed

lemma distinct_enforce_limit:
  assumes "distinct (map fst (typing_tasks s))"
  shows "distinct (map fst (typing_tasks (snd (enforce_limit cfg s))))"
proof -
  let ?s1 = "cleanup_typing_tasks (emit (Log LimitReached) s)"
  have d1: "distinct (map fst (typing_tasks ?s1))"
    using assms by (intro distinct_cleanup) simp
  let ?k = "max 1 (length (typing_tasks ?s1) div 10)"
  have d2: "distinct (map fst (typing_tasks (snd (evict ?k ?s1))))"
    using d1 by (rule distinct_evict)
  show ?thesis
  proof (cases "evict ?k ?s1")
    case (Pair a s2)
    with assms d1 d2 show ?thesis
      by (simp add: enforce_limit_def Let_def split: sum.splits)
  qed
qed

lemma distinct_create_task:
  "distinct (map fst (typing_tasks s)) \<Longrightarrow> distinct (map fst (typing_tasks (create_task c s)))"
  by (simp add: create_task_def Let_def distinct_update)

lemma distinct_start_typing:
  assumes "distinct (map fst (typing_tasks s))"
  shows "distinct (map fst (typing_tasks (snd (start_typing cfg c s))))"
proof -
  let ?s1 = "stop_typing c s"
  let ?s2 = "?s1\<lparr>typing_cleanup_counter := typing_cleanup_counter ?s1 + 1\<rparr>"
  let ?s3 = "if typing_cleanup_counter ?s2 \<ge> typing_cleanup_threshold cfg
             then (cleanup_typing_tasks ?s2)\<lparr>typing_cleanup_counter := 0\<rparr> else ?s2"
  have d2: "distinct (map fst (typing_tasks ?s2))"
    using distinct_stop_typing [OF assms, of c] by simp
  have d3: "distinct (map fst (typing_tasks ?s3))"
    using d2 distinct_cleanup [OF d2] by simp
  have d4: "distinct (map fst (typing_tasks (snd (enforce_limit cfg ?s3))))"
    using d3 by (rule distinct_enforce_limit)
  have d5: "distinct (map fst (typing_tasks (create_task c (snd (enforce_limit cfg ?s3)))))"
    using d4 by (rule distinct_create_task)
  show ?thesis
  proof (cases "enforce_limit cfg ?s3")
    case (Pair a s4)
    with d4 d5 show ?thesis
      unfolding start_typing_def Let_def by (simp split: sum.splits)
  qed
qed

lemma stop_typing_twice: "stop_typing c (stop_typing c s) = stop_typing c s"
proof (cases "map_of (typing_tasks s) c")
  case None
  then show ?thesis by (simp add: stop_typing_def)
next
  case (Some t)
  have "map_of (AList.delete c (typing_tasks s)) c = None"
    by (simp add: delete_conv')
  with Some show ?thesis by (simp add: stop_typing_def)
qed

lemma start_typing_after_stop:
  "prefix (trace (stop_typing c s)) (trace (snd (start_typing cfg c s)))"
proof -
  let ?s1 = "stop_typing c s"
  let ?s2 = "?s1\<lparr>typing_cleanup_counter := typing_cleanup_counter ?s1 + 1\<rparr>"
  let ?s3 = "if typing_cleanup_counter ?s2 \<ge> typing_cleanup_threshold cfg
             then (cleanup_typing_tasks ?s2)\<lparr>typing_cleanup_counter := 0\<rparr> else ?s2"
  have f3: "frame ?s1 ?s3" by (simp add: frame_cleanup)
  have f4: "frame ?s1 (snd (enforce_limit cfg ?s3))" using f3 by (rule frame_enforce_limit)
  have f5: "frame ?s1 (create_task c (snd (enforce_limit cfg ?s3)))"
    using f4 by (rule frame_create_task)
  have "frame ?s1 (snd (start_typing cfg c s))"
  proof (cases "enforce_limit cfg ?s3")
    case (Pair a s4)
    with f4 f5 show ?thesis
      unfolding start_typing_def Let_def by (simp split: sum.splits)
  qed
  then show ?thesis by (simp add: frame_def)
qed

lemma start_typing_new_task:
  assumes "fst (start_typing cfg c s) = Inr ()"
  shows "\<exists>t. map_of (typing_tasks (snd (start_typing cfg c s))) c = Some t \<and> \<not> task_done t \<and>
             last (trace (snd (start_typing cfg c s))) = Create c t"
proof -
  let ?s1 = "stop_typing c s"
  let ?s2 = "?s1\<lparr>typing_cleanup_counter := typing_cleanup_counter ?s1 + 1\<rparr>"
  let ?s3 = "if typing_cleanup_counter ?s2 \<ge> typing_cleanup_threshold cfg
             then (cleanup_typing_tasks ?s2)\<lparr>typing_cleanup_counter := 0\<rparr> else ?s2"
  obtain a s4 where e: "enforce_limit cfg ?s3 = (a, s4)" by (cases "enforce_limit cfg ?s3")
  with assms have st: "start_typing cfg c s = (Inr (), create_task c s4)"
    unfolding start_typing_def Let_def by (simp split: sum.splits)
  show ?thesis
    unfolding st by (simp add: create_task_def Let_def update_conv')
qed

text \<open>
  C8. The pool holds at most one task for each chat: the chat ids of its entries are
  distinct in the initial state, and \<open>start_typing\<close>, \<open>stop_typing\<close> and
  \<open>cleanup_typing_tasks\<close> keep them distinct. \<open>start_typing\<close> on a chat that has a task
  first cancels that task and removes it, and when it returns the chat has the task
  created last. A second \<open>stop_typing\<close> on the same chat changes nothing.
\<close>

theorem one_task_per_chat:
  assumes "distinct (map fst (typing_tasks s))"
  shows "distinct (map fst (typing_tasks init)) \<and>
         distinct (map fst (typing_tasks (snd (start_typing cfg c s)))) \<and>
         distinct (map fst (typing_tasks (stop_typing c s))) \<and>
         distinct (map fst (typing_tasks (cleanup_typing_tasks s))) \<and>
         (\<forall>t. map_of (typing_tasks s) c = Some t \<longrightarrow>
            prefix (trace s @ [Cancel c t]) (trace (snd (start_typing cfg c s))) \<and>
            map_of (typing_tasks (stop_typing c s)) c = None) \<and>
         (fst (start_typing cfg c s) = Inr () \<longrightarrow>
            (\<exists>t. map_of (typing_tasks (snd (start_typing cfg c s))) c = Some t \<and> \<not> task_done t \<and>
                 last (trace (snd (start_typing cfg c s))) = Create c t)) \<and>
         stop_typing c (stop_typing c s) = stop_typing c s"
proof -
  have "prefix (trace s @ [Cancel c t]) (trace (snd (start_typing cfg c s))) \<and>
        map_of (typing_tasks (stop_typing c s)) c = None"
    if "map_of (typing_tasks s) c = Some t" for t
  proof -
    from that have "trace (stop_typing c s) = trace s @ [Cancel c t]"
      by (simp add: stop_typing_def)
    moreover from that have "map_of (typing_tasks (stop_typing c s)) c = None"
      by (simp add: stop_typing_def delete_conv')
    ultimately show ?thesis using start_typing_after_stop [of c s cfg] by simp
  qed
  then show ?thesis
    using distinct_start_typing [OF assms] distinct_stop_typing [OF assms]
      distinct_cleanup [OF assms] start_typing_new_task [of cfg c s] stop_typing_twice [of c s]
    by (simp add: init_def)
qed

text \<open>\<open>start_typing\<close> for chat 2 on the pool of the two running tasks of chats 1 and 2.\<close>

theorem one_task_per_chat_witness:
  "distinct (map fst (typing_tasks two_running)) \<and>
   map_of (typing_tasks two_running) 2 = Some (Task 1 False) \<and>
   start_typing small_config 2 two_running =
     (Inr (), \<lparr>update_offset = 0, typing_tasks = [(1, Task 0 False), (2, Task 3 False)],
               typing_cleanup_counter = 3,
               trace = [Create 1 (Task 0 False), Create 2 (Task 1 False),
                        Cancel 2 (Task 1 False), Create 2 (Task 3 False)]\<rparr>) \<and>
   distinct (map fst (typing_tasks (snd (start_typing small_config 2 two_running)))) \<and>
   stop_typing 2 (stop_typing 2 two_running) = stop_typing 2 two_running"
proof -
  have h: "distinct (map fst (typing_tasks two_running))"
    by (simp add: two_running_def)
  have m: "map_of (typing_tasks two_running) 2 = Some (Task 1 False)"
    by (simp add: two_running_def)
  have e: "start_typing small_config 2 two_running =
     (Inr (), \<lparr>update_offset = 0, typing_tasks = [(1, Task 0 False), (2, Task 3 False)],
               typing_cleanup_counter = 3,
               trace = [Create 1 (Task 0 False), Create 2 (Task 1 False),
                        Cancel 2 (Task 1 False), Create 2 (Task 3 False)]\<rparr>)"
    by (simp add: start_typing_def stop_typing_def enforce_limit_def create_task_def
        cleanup_typing_tasks_def emit_def two_running_def small_config_def Let_def)
  from one_task_per_chat [OF h, of small_config 2] h m e show ?thesis by blast
qed

section \<open>The pool at its limit\<close>

lemma cancels_append [simp]: "cancels (a @ b) = cancels a @ cancels b"
  by (simp add: cancels_def)

lemma cancels_single [simp]:
  "cancels [Cancel c t] = [(c, t)]" "cancels [Log m] = []" "cancels [Create c t] = []"
  by (simp_all add: cancels_def)














end
